theory Spec2Isabelle
  imports Main
begin

section \<open>Virtual-time test schedule of ruscello: data model\<close>

text \<open>
  The development embeds the testing utilities of the library (\<open>TestSchedule\<close>,
  \<open>getActionInsertIndex\<close>, \<open>TestSource\<close>, \<open>SharedTestSource\<close>, \<open>watchSourceEvents\<close>).
  Frames are JavaScript numbers in the source; following the data model of the
  specification (\<open>executionFrame: integer\<close>, \<open>frame: integer\<close>) they are integers here.
  The only other number the source produces is \<open>Infinity\<close>, the end frame of a
  subscription that has not been disposed; it has a constructor of its own in
  \<open>frame_bound\<close>. The events carry numbers (\<open>Event<number>\<close>).
\<close>

datatype event = Push int | Throw string | End

record TestSourceEvent =
  event :: event
  frame :: int

definition P :: "int \<Rightarrow> int \<Rightarrow> TestSourceEvent" where
  "P v f = \<lparr>event = Push v, frame = f\<rparr>"

definition T :: "string \<Rightarrow> int \<Rightarrow> TestSourceEvent" where
  "T err f = \<lparr>event = Throw err, frame = f\<rparr>"

definition E :: "int \<Rightarrow> TestSourceEvent" where
  "E f = \<lparr>event = End, frame = f\<rparr>"

datatype frame_bound = Frame int | Infinity

record TestSubscriptionInfo =
  subscriptionStartFrame :: int
  subscriptionEndFrame :: frame_bound

text \<open>
  A \<open>Sink\<close> is a consumer callback bound to one \<open>Disposable\<close> (a reference into the
  store of disposables). The consumer callbacks are the recorder that
  \<open>watchSourceEvents\<close> builds (it appends to the array with the given reference) and a
  consumer that ignores what it receives.
\<close>

datatype sink_callback = RecordInto nat | Ignore

record Sink =
  onEvent :: sink_callback
  subscription :: nat

datatype source = TestSourceRef nat | SharedTestSourceRef nat

text \<open>
  Callbacks handed to the schedule are closures in the source; here they are data,
  one constructor per closure of the source file and per kind of test callback:
  \<^item> \<open>Opaque k\<close>: a callback of the caller that returns normally and touches nothing;
  \<^item> \<open>Throwing k\<close>: a callback of the caller that raises exception \<open>k\<close>;
  \<^item> \<open>CallFlush\<close>, \<open>CallReset\<close>: callbacks that call \<open>flush()\<close>, \<open>reset()\<close> of the schedule;
  \<^item> \<open>CallDispose d\<close>: \<open>() => subscription.dispose()\<close> (\<open>watchSourceEvents\<close>);
  \<^item> \<open>CallSource s k\<close>: \<open>() => source(Sink(...))\<close> (\<open>watchSourceEvents\<close>);
  \<^item> \<open>CallSink k e\<close>: \<open>() => sink(event)\<close> (\<open>TestSource\<close>);
  \<^item> \<open>CallSubject r e\<close>: \<open>() => subject(event)\<close> (\<open>SharedTestSource\<close>);
  \<^item> \<open>CallSchedule cb d sub\<close>: a callback that calls \<open>testSchedule(cb, d, sub)\<close>;
  \<^item> \<open>Seq cbs\<close>: a callback whose body makes the calls of \<open>cbs\<close> one after the other.
\<close>

datatype callback =
    Opaque nat
  | Throwing nat
  | CallFlush
  | CallReset
  | CallDispose nat
  | CallSource source Sink
  | CallSink Sink TestSourceEvent
  | CallSubject nat TestSourceEvent
  | CallSchedule callback int "nat option"
  | Seq "callback list"

text \<open>
  \<open>aid\<close> is the identity of the action object: the teardown registered by the schedule
  holds a reference to the action and writes its \<open>shouldCall\<close> field.
\<close>

record TestScheduleAction =
  aid :: nat
  callback :: callback
  executionFrame :: int
  shouldCall :: bool

section \<open>getActionInsertIndex\<close>

text \<open>
  \<open>((low + high) / 2) | 0\<close> truncates the quotient towards zero (queues are shorter than
  \<open>2^31\<close> entries, so the conversion to a 32-bit integer changes nothing else).
\<close>

definition half_trunc :: "int \<Rightarrow> int" where
  "half_trunc x = (if 0 \<le> x then x div 2 else - ((- x) div 2))"

text \<open>The inner loop \<open>while (mid + 1 < len && actions[mid + 1].executionFrame === frame) mid++\<close>.\<close>

function getActionInsertIndex_scan :: "TestScheduleAction list \<Rightarrow> int \<Rightarrow> int \<Rightarrow> int" where
  "getActionInsertIndex_scan actions frm mid =
     (if mid + 1 < int (length actions) \<and> executionFrame (actions ! nat (mid + 1)) = frm
      then getActionInsertIndex_scan actions frm (mid + 1)
      else mid)"
  by pat_completeness auto
termination
  by (relation "measure (\<lambda>(actions, frm, mid). nat (int (length actions) - mid))") auto

declare getActionInsertIndex_scan.simps [simp del]

text \<open>
  The outer loop \<open>while (low <= high)\<close> together with the code after it. Every index
  read lies in \<open>[low, high]\<close>, which \<open>getActionInsertIndex\<close> starts at \<open>[0, len - 1]\<close>.
\<close>

function getActionInsertIndex_loop ::
  "TestScheduleAction list \<Rightarrow> int \<Rightarrow> int \<Rightarrow> int \<Rightarrow> int" where
  "getActionInsertIndex_loop actions frm low high =
     (if low \<le> high then
        (if executionFrame (actions ! nat (half_trunc (low + high))) < frm
         then getActionInsertIndex_loop actions frm (half_trunc (low + high) + 1) high
         else if executionFrame (actions ! nat (half_trunc (low + high))) > frm
         then getActionInsertIndex_loop actions frm low (half_trunc (low + high) - 1)
         else getActionInsertIndex_scan actions frm (half_trunc (low + high)) + 1)
      else if high < 0 then 0
      else if low > int (length actions) - 1 then int (length actions)
      else if low < high then low + 1 else high + 1)"
  by pat_completeness auto
termination
  by (relation "measure (\<lambda>(actions, frm, low, high). nat (high - low + 1))")
     (auto simp: half_trunc_def)

declare getActionInsertIndex_loop.simps [simp del]

definition getActionInsertIndex :: "TestScheduleAction list \<Rightarrow> int \<Rightarrow> int" where
  "getActionInsertIndex actions frm =
     getActionInsertIndex_loop actions frm 0 (int (length actions) - 1)"

section \<open>The store: disposables, sources, subjects, recorded events\<close>

text \<open>
  The teardown closures that the code registers on a \<open>Disposable\<close>:
  \<^item> \<open>CancelAction i\<close>: \<open>() => { action.shouldCall = false }\<close> for the action object \<open>i\<close>.
    The write goes to the action where it sits in the queue. An action that has left
    the queue is referenced by this closure and by the local variable of \<open>flush\<close> only,
    and \<open>flush\<close> has read \<open>shouldCall\<close> before it calls the callback, so a later write to
    it is not observable;
  \<^item> \<open>RecordEndFrame r\<close>: \<open>() => { info.subscriptionEndFrame = testSchedule.currentFrame }\<close>
    for the info object \<open>r\<close>;
  \<^item> \<open>RemoveSink s k\<close>: the removal of sink \<open>k\<close> from the registry of subject \<open>s\<close>.
\<close>

datatype teardown = CancelAction nat | RecordEndFrame nat | RemoveSink nat Sink

record Disposable =
  active :: bool
  teardowns :: "teardown list"

record TestSourceObject =
  events :: "TestSourceEvent list"
  subscriptions :: "nat list"

text \<open>
  \<open>actions\<close>, \<open>currentFrame\<close> and \<open>isFlushing\<close> are the three variables closed over by
  \<open>TestSchedule()\<close>. \<open>invoked\<close> is a history variable: \<open>flush\<close> appends the action to it at
  every \<open>callback()\<close> it makes. The other fields are the heap: objects are reached by
  reference, \<open>next_ref\<close> is the next unused reference.
\<close>

record world =
  actions :: "TestScheduleAction list"
  currentFrame :: int
  isFlushing :: bool
  invoked :: "TestScheduleAction list"
  next_ref :: nat
  disposables :: "nat \<Rightarrow> Disposable"
  infos :: "nat \<Rightarrow> TestSubscriptionInfo"
  sources :: "nat \<Rightarrow> TestSourceObject"
  subjects :: "nat \<Rightarrow> Sink list"
  recorded :: "nat \<Rightarrow> TestSourceEvent list"

text \<open>
  \<open>TestSchedule()\<close> on an empty heap. A reference that has not been written to denotes the
  object as its constructor makes it: a disposable that is active and has no teardowns,
  a source without events, a subject without sinks, an empty array.
\<close>

definition TestSchedule :: world where
  "TestSchedule =
     \<lparr>actions = [], currentFrame = 0, isFlushing = False, invoked = [], next_ref = 0,
      disposables = (\<lambda>_. \<lparr>active = True, teardowns = []\<rparr>),
      infos = (\<lambda>_. \<lparr>subscriptionStartFrame = 0, subscriptionEndFrame = Infinity\<rparr>),
      sources = (\<lambda>_. \<lparr>events = [], subscriptions = []\<rparr>),
      subjects = (\<lambda>_. []),
      recorded = (\<lambda>_. [])\<rparr>"

definition run_teardown :: "teardown \<Rightarrow> world \<Rightarrow> world" where
  "run_teardown t w =
     (case t of
        CancelAction i \<Rightarrow>
          w\<lparr>actions := map (\<lambda>a. if aid a = i then a\<lparr>shouldCall := False\<rparr> else a) (actions w)\<rparr>
      | RecordEndFrame r \<Rightarrow>
          w\<lparr>infos := (infos w)(r := (infos w r)\<lparr>subscriptionEndFrame := Frame (currentFrame w)\<rparr>)\<rparr>
      | RemoveSink s k \<Rightarrow>
          w\<lparr>subjects := (subjects w)(s := remove1 k (subjects w s))\<rparr>)"

text \<open>
  Modelled from the spec: \<open>Disposable\<close> (\<open>./disposable\<close> is not among the sources).
  \<open>Disposable()\<close> creates an active disposable without teardowns. \<open>add(child)\<close> registers
  the teardown if the disposable is active and runs it immediately otherwise.
  \<open>dispose()\<close> is a no-op on an inactive disposable; otherwise it runs every registered
  teardown in insertion order and then sets \<open>active\<close> to false. Every child the code adds
  is \<open>Disposable(callback)\<close>, created at the call and referenced from nowhere else, so a
  child is represented by its teardown callback.
\<close>

definition newDisposable :: "world \<Rightarrow> nat \<times> world" where
  "newDisposable w =
     (next_ref w,
      w\<lparr>next_ref := Suc (next_ref w),
        disposables := (disposables w)(next_ref w := \<lparr>active = True, teardowns = []\<rparr>)\<rparr>)"

definition Disposable_add :: "nat \<Rightarrow> teardown \<Rightarrow> world \<Rightarrow> world" where
  "Disposable_add d t w =
     (if active (disposables w d)
      then w\<lparr>disposables := (disposables w)
               (d := (disposables w d)\<lparr>teardowns := teardowns (disposables w d) @ [t]\<rparr>)\<rparr>
      else run_teardown t w)"

definition dispose :: "nat \<Rightarrow> world \<Rightarrow> world" where
  "dispose d w =
     (if \<not> active (disposables w d) then w
      else (let w' = fold run_teardown (teardowns (disposables w d)) w
            in w'\<lparr>disposables := (disposables w')(d := (disposables w' d)\<lparr>active := False\<rparr>)\<rparr>))"

section \<open>TestSchedule\<close>

text \<open>
  \<open>actions.splice(index, 0, action)\<close>: a negative start counts from the end, a start
  beyond the length is the length.
\<close>

definition splice_insert :: "int \<Rightarrow> 'a \<Rightarrow> 'a list \<Rightarrow> 'a list" where
  "splice_insert start x xs =
     (let len = int (length xs);
          s = (if start < 0 then max (len + start) 0 else min start len)
      in take (nat s) xs @ x # drop (nat s) xs)"

text \<open>The invocation \<open>testSchedule(callback, delayFrames, subscription?)\<close>.\<close>

definition testSchedule :: "callback \<Rightarrow> int \<Rightarrow> nat option \<Rightarrow> world \<Rightarrow> world" where
  "testSchedule cb delayFrames sub w =
     (if (case sub of Some d \<Rightarrow> \<not> active (disposables w d) | None \<Rightarrow> False) then w
      else
        (let executionFrame' = currentFrame w + delayFrames;
             index = getActionInsertIndex (actions w) executionFrame';
             action = \<lparr>aid = next_ref w, callback = cb, executionFrame = executionFrame',
                       shouldCall = True\<rparr>;
             w' = w\<lparr>actions := splice_insert index action (actions w),
                    next_ref := Suc (next_ref w)\<rparr>
         in (case sub of
               None \<Rightarrow> w'
             | Some d \<Rightarrow> Disposable_add d (CancelAction (aid action)) w')))"

definition reset :: "world \<Rightarrow> world" where
  "reset w = w\<lparr>actions := [], currentFrame := 0, isFlushing := False\<rparr>"

section \<open>Sinks, subjects, test sources\<close>

text \<open>
  Modelled from the spec: \<open>Sink\<close> and \<open>Source\<close> (\<open>./source\<close> is not among the sources).
  A sink forwards an event to its callback only while its disposable is active; a
  source called with a sink runs its subscribe function on it. The recorder callback is
  the one of \<open>watchSourceEvents\<close>:
  \<open>events.push({ ...event, frame: testSchedule.currentFrame })\<close>.
\<close>

definition Sink_call :: "Sink \<Rightarrow> TestSourceEvent \<Rightarrow> world \<Rightarrow> world" where
  "Sink_call k e w =
     (if active (disposables w (subscription k))
      then (case onEvent k of
              RecordInto r \<Rightarrow>
                w\<lparr>recorded := (recorded w)(r := recorded w r @ [e\<lparr>frame := currentFrame w\<rparr>])\<rparr>
            | Ignore \<Rightarrow> w)
      else w)"

text \<open>
  Modelled from the spec: \<open>Subject\<close> (\<open>./subject\<close> is not among the sources).
  Subscribing adds the sink to the registry, from which it is removed when its disposable
  becomes inactive; pushing an event forwards it to the sinks registered at the start of
  the push, in subscription order.
\<close>

definition Subject_subscribe :: "nat \<Rightarrow> Sink \<Rightarrow> world \<Rightarrow> world" where
  "Subject_subscribe s k w =
     Disposable_add (subscription k) (RemoveSink s k)
       (w\<lparr>subjects := (subjects w)(s := subjects w s @ [k])\<rparr>)"

definition Subject_push :: "nat \<Rightarrow> TestSourceEvent \<Rightarrow> world \<Rightarrow> world" where
  "Subject_push s e w = fold (\<lambda>k. Sink_call k e) (subjects w s) w"

text \<open>\<open>watchSubscriptionInfo(testSchedule, subscription?)\<close>; the result is the reference of the info.\<close>

definition watchSubscriptionInfo :: "nat option \<Rightarrow> world \<Rightarrow> nat \<times> world" where
  "watchSubscriptionInfo sub w =
     (let r = next_ref w;
          w' = w\<lparr>next_ref := Suc r,
                 infos := (infos w)(r := \<lparr>subscriptionStartFrame = currentFrame w,
                                          subscriptionEndFrame = Infinity\<rparr>)\<rparr>
      in (r, case sub of None \<Rightarrow> w' | Some d \<Rightarrow> Disposable_add d (RecordEndFrame r) w'))"

definition push_subscription :: "nat \<Rightarrow> nat \<Rightarrow> world \<Rightarrow> world" where
  "push_subscription r i w =
     w\<lparr>sources := (sources w)
          (r := (sources w r)\<lparr>subscriptions := subscriptions (sources w r) @ [i]\<rparr>)\<rparr>"

text \<open>\<open>TestSource(events, testSchedule)\<close> and the subscribe function it wraps.\<close>

definition TestSource :: "TestSourceEvent list \<Rightarrow> world \<Rightarrow> source \<times> world" where
  "TestSource evs w =
     (TestSourceRef (next_ref w),
      w\<lparr>next_ref := Suc (next_ref w),
        sources := (sources w)(next_ref w := \<lparr>events = evs, subscriptions = []\<rparr>)\<rparr>)"

definition TestSource_subscribe :: "nat \<Rightarrow> Sink \<Rightarrow> world \<Rightarrow> world" where
  "TestSource_subscribe r k w =
     (let (i, w1) = watchSubscriptionInfo (Some (subscription k)) w;
          w2 = push_subscription r i w1
      in fold (\<lambda>e. testSchedule (CallSink k e) (frame e) (Some (subscription k)))
           (events (sources w2 r)) w2)"

text \<open>
  \<open>SharedTestSource(events, testSchedule, Subject = DefaultSubject)\<close> with the default
  subject, its subscribe function and its \<open>schedule(subscription?)\<close> method. The subject
  of the source with reference \<open>r\<close> is the subject with reference \<open>r\<close>.
\<close>

definition SharedTestSource :: "TestSourceEvent list \<Rightarrow> world \<Rightarrow> source \<times> world" where
  "SharedTestSource evs w =
     (SharedTestSourceRef (next_ref w),
      w\<lparr>next_ref := Suc (next_ref w),
        sources := (sources w)(next_ref w := \<lparr>events = evs, subscriptions = []\<rparr>),
        subjects := (subjects w)(next_ref w := [])\<rparr>)"

definition SharedTestSource_subscribe :: "nat \<Rightarrow> Sink \<Rightarrow> world \<Rightarrow> world" where
  "SharedTestSource_subscribe r k w =
     (let (i, w1) = watchSubscriptionInfo (Some (subscription k)) w
      in Subject_subscribe r k (push_subscription r i w1))"

definition SharedTestSource_schedule :: "nat \<Rightarrow> nat option \<Rightarrow> world \<Rightarrow> world" where
  "SharedTestSource_schedule r sub w =
     fold (\<lambda>e. testSchedule (CallSubject r e) (frame e) sub) (events (sources w r)) w"

definition Source_call :: "source \<Rightarrow> Sink \<Rightarrow> world \<Rightarrow> world" where
  "Source_call src k w =
     (case src of
        TestSourceRef r \<Rightarrow> TestSource_subscribe r k w
      | SharedTestSourceRef r \<Rightarrow> SharedTestSource_subscribe r k w)"

text \<open>The subscriptions a test source exposes: the info objects, read through the heap.\<close>

definition subscriptions_of :: "world \<Rightarrow> nat \<Rightarrow> TestSubscriptionInfo list" where
  "subscriptions_of w r = map (infos w) (subscriptions (sources w r))"

section \<open>flush\<close>

text \<open>
  A callback may throw; the outcome of a call is the world it leaves and, when it threw,
  the exception. A callback can call \<open>flush\<close> again, so \<open>flush\<close>, its loop and the call of
  a callback are defined together. The first argument bounds the number of loop
  iterations; \<open>None\<close> means that the bound was reached.
\<close>

datatype outcome = Returned world | Raised nat world

fun flush_loop :: "nat \<Rightarrow> world \<Rightarrow> outcome option"
  and run_callback :: "nat \<Rightarrow> callback \<Rightarrow> world \<Rightarrow> outcome option"
  and flush :: "nat \<Rightarrow> world \<Rightarrow> outcome option"
where
  "flush_loop 0 w = None"
| "flush_loop (Suc n) w =
     (case actions w of
        [] \<Rightarrow> Some (Returned w)
      | action # rest \<Rightarrow>
          (let w1 = w\<lparr>actions := rest, currentFrame := executionFrame action\<rparr> in
           if shouldCall action then
             (case run_callback n (callback action) (w1\<lparr>invoked := invoked w1 @ [action]\<rparr>) of
                None \<Rightarrow> None
              | Some (Raised err w2) \<Rightarrow> Some (Raised err (reset w2))
              | Some (Returned w2) \<Rightarrow> flush_loop n w2)
           else flush_loop n w1))"
| "run_callback n (Opaque k) w = Some (Returned w)"
| "run_callback n (Throwing k) w = Some (Raised k w)"
| "run_callback n CallFlush w = flush n w"
| "run_callback n CallReset w = Some (Returned (reset w))"
| "run_callback n (CallDispose d) w = Some (Returned (dispose d w))"
| "run_callback n (CallSource src k) w = Some (Returned (Source_call src k w))"
| "run_callback n (CallSink k e) w = Some (Returned (Sink_call k e w))"
| "run_callback n (CallSubject s e) w = Some (Returned (Subject_push s e w))"
| "run_callback n (CallSchedule cb delayFrames sub) w =
     Some (Returned (testSchedule cb delayFrames sub w))"
| "run_callback n (Seq []) w = Some (Returned w)"
| "run_callback n (Seq (cb # cbs)) w =
     (case run_callback n cb w of
        None \<Rightarrow> None
      | Some (Raised err w') \<Rightarrow> Some (Raised err w')
      | Some (Returned w') \<Rightarrow> run_callback n (Seq cbs) w')"
| "flush n w =
     (if isFlushing w then Some (Returned w)
      else (case flush_loop n (w\<lparr>isFlushing := True\<rparr>) of
              None \<Rightarrow> None
            | Some (Raised err w') \<Rightarrow> Some (Raised err w')
            | Some (Returned w') \<Rightarrow> Some (Returned (w'\<lparr>isFlushing := False\<rparr>))))"

declare flush.simps [simp del]

section \<open>watchSourceEvents\<close>

text \<open>
  \<open>watchSourceEvents(source, testSchedule, subscriptionInfo)\<close>; the result is the reference
  of the array of recorded events. Both frames of the info are passed to the schedule as
  delays. The result is \<open>None\<close> when the end frame is \<open>Infinity\<close>, a delay outside the
  integers of this model; the info that the source takes when the argument is omitted,
  \<open>watchSubscriptionInfo(testSchedule)\<close>, is of that kind.
\<close>

definition watchSourceEvents ::
  "source \<Rightarrow> TestSubscriptionInfo \<Rightarrow> world \<Rightarrow> (nat \<times> world) option" where
  "watchSourceEvents src subscriptionInfo w =
     (case subscriptionEndFrame subscriptionInfo of
        Infinity \<Rightarrow> None
      | Frame endFrame \<Rightarrow>
          (let (d, w1) = newDisposable w;
               r = next_ref w1;
               w2 = w1\<lparr>next_ref := Suc r, recorded := (recorded w1)(r := [])\<rparr>;
               w3 = testSchedule (CallSource src \<lparr>onEvent = RecordInto r, subscription = d\<rparr>)
                      (subscriptionStartFrame subscriptionInfo) None w2;
               w4 = testSchedule (CallDispose d) endFrame None w3
           in Some (r, w4)))"

section \<open>Sequences of scheduling calls\<close>

text \<open>The scheduling calls of a list, issued in order.\<close>

definition schedule_all :: "(callback \<times> int \<times> nat option) list \<Rightarrow> world \<Rightarrow> world" where
  "schedule_all calls w = fold (\<lambda>(cb, delayFrames, sub). testSchedule cb delayFrames sub) calls w"

text \<open>
  The insertion rule in the words of the specification: the new action goes after all
  queued actions with a smaller or equal frame.
\<close>

definition insert_by_frame ::
  "TestScheduleAction \<Rightarrow> TestScheduleAction list \<Rightarrow> TestScheduleAction list" where
  "insert_by_frame a q =
     filter (\<lambda>b. executionFrame b \<le> executionFrame a) q @ a #
     filter (\<lambda>b. executionFrame a < executionFrame b) q"

text \<open>The queue is ordered by \<open>executionFrame\<close> ascending.\<close>

definition queue_sorted :: "world \<Rightarrow> bool" where
  "queue_sorted w = sorted (map executionFrame (actions w))"

text \<open>A subscription argument that lets the call schedule: absent, or an active disposable.\<close>

definition sub_ok :: "world \<Rightarrow> nat option \<Rightarrow> bool" where
  "sub_ok w sub = (case sub of None \<Rightarrow> True | Some x \<Rightarrow> active (disposables w x))"

text \<open>
  The action object \<open>i\<close> is cancelled and has not run: wherever it sits in the queue its
  \<open>shouldCall\<close> is false, no \<open>callback()\<close> of it has been made, and its reference is
  allocated (so no new action gets it).
\<close>

definition cancelled :: "nat \<Rightarrow> world \<Rightarrow> bool" where
  "cancelled i w =
     ((\<forall>a\<in>set (actions w). aid a = i \<longrightarrow> \<not> shouldCall a)
      \<and> (\<forall>a\<in>set (invoked w). aid a \<noteq> i)
      \<and> i < next_ref w)"


fun is_Opaque :: "callback \<Rightarrow> bool" where
  "is_Opaque (Opaque k) = True"
| "is_Opaque _ = False"

fun world_of :: "outcome \<Rightarrow> world" where
  "world_of (Returned w) = w"
| "world_of (Raised err w) = w"

section \<open>The insertion index on a sorted queue\<close>

lemma length_filter_split:
  assumes "k \<le> length xs"
    and "\<And>i. i < k \<Longrightarrow> Q (xs ! i)"
    and "\<And>i. k \<le> i \<Longrightarrow> i < length xs \<Longrightarrow> \<not> Q (xs ! i)"
  shows "length (filter Q xs) = k"
proof -
  have a: "filter Q (take k xs) = take k xs"
    using assms(1,2) by (auto simp: filter_id_conv in_set_conv_nth)
  have b: "filter Q (drop k xs) = []"
    using assms(1,3) by (auto simp: filter_empty_conv in_set_conv_nth)
  have "filter Q xs = filter Q (take k xs @ drop k xs)" by simp
  also have "\<dots> = take k xs" using a b by (simp del: append_take_drop_id)
  finally show ?thesis using assms(1) by simp
qed

lemma frames_mono:
  assumes "sorted (map executionFrame as)" "i \<le> j" "j < length as"
  shows "executionFrame (as ! i) \<le> executionFrame (as ! j)"
  using sorted_nth_mono[OF assms(1), of i j] assms(2,3) by simp

lemma scan_spec:
  assumes "0 \<le> mid" "mid < int (length as)" "executionFrame (as ! nat mid) = f"
  shows "mid \<le> getActionInsertIndex_scan as f mid
       \<and> getActionInsertIndex_scan as f mid < int (length as)
       \<and> executionFrame (as ! nat (getActionInsertIndex_scan as f mid)) = f
       \<and> (getActionInsertIndex_scan as f mid + 1 < int (length as) \<longrightarrow>
            executionFrame (as ! nat (getActionInsertIndex_scan as f mid + 1)) \<noteq> f)"
  using assms
proof (induction as f mid rule: getActionInsertIndex_scan.induct)
  case (1 as f mid)
  show ?case
  proof (cases "mid + 1 < int (length as) \<and> executionFrame (as ! nat (mid + 1)) = f")
    case True
    then have eq: "getActionInsertIndex_scan as f mid = getActionInsertIndex_scan as f (mid + 1)"
      by (subst getActionInsertIndex_scan.simps) simp
    from "1.IH"[OF True] True "1.prems" show ?thesis
      unfolding eq by auto
  next
    case False
    then have eq: "getActionInsertIndex_scan as f mid = mid"
      by (subst getActionInsertIndex_scan.simps) auto
    from False "1.prems" show ?thesis unfolding eq by auto
  qed
qed

lemma half_trunc_between:
  assumes "0 \<le> low" "low \<le> high"
  shows "low \<le> half_trunc (low + high)" "half_trunc (low + high) \<le> high"
  using assms by (auto simp: half_trunc_def)

lemma loop_count:
  assumes "sorted (map executionFrame as)"
    and "0 \<le> low" "high < int (length as)" "low \<le> high + 1"
    and "\<And>i. i < nat low \<Longrightarrow> executionFrame (as ! i) < f"
    and "\<And>i. nat (high + 1) \<le> i \<Longrightarrow> i < length as \<Longrightarrow> f < executionFrame (as ! i)"
  shows "getActionInsertIndex_loop as f low high
       = int (length (filter (\<lambda>a. executionFrame a \<le> f) as))"
  using assms
proof (induction as f low high rule: getActionInsertIndex_loop.induct)
  case (1 as f low high)
  let ?mid = "half_trunc (low + high)"
  let ?fr = "\<lambda>i. executionFrame (as ! i)"
  show ?case
  proof (cases "low \<le> high")
    case False
    with "1.prems" have lh: "low = high + 1" by simp
    have "length (filter (\<lambda>a. executionFrame a \<le> f) as) = nat low"
    proof (rule length_filter_split)
      show "nat low \<le> length as" using lh "1.prems" by simp
    next
      fix i assume "i < nat low" then show "?fr i \<le> f" using "1.prems"(5)[of i] by simp
    next
      fix i assume "nat low \<le> i" "i < length as"
      then show "\<not> ?fr i \<le> f" using "1.prems"(6)[of i] lh by simp
    qed
    moreover have "getActionInsertIndex_loop as f low high = low"
      using False lh "1.prems" by (subst getActionInsertIndex_loop.simps) auto
    ultimately show ?thesis using "1.prems" by simp
  next
    case True
    have mid: "low \<le> ?mid" "?mid \<le> high" "0 \<le> ?mid" "nat ?mid < length as"
      using half_trunc_between[of low high] True "1.prems" by auto
    consider (lt) "?fr (nat ?mid) < f" | (gt) "\<not> ?fr (nat ?mid) < f" "?fr (nat ?mid) > f"
      | (eq) "?fr (nat ?mid) = f" by force
    then show ?thesis
    proof cases
      case lt
      have eq: "getActionInsertIndex_loop as f low high = getActionInsertIndex_loop as f (?mid + 1) high"
        using True lt by (subst getActionInsertIndex_loop.simps) simp
      have "getActionInsertIndex_loop as f (?mid + 1) high
          = int (length (filter (\<lambda>a. executionFrame a \<le> f) as))"
      proof (rule "1.IH"(1)[OF True lt "1.prems"(1)])
        show "0 \<le> ?mid + 1" "high < int (length as)" "?mid + 1 \<le> high + 1"
          using mid "1.prems" by auto
      next
        fix i assume "i < nat (?mid + 1)"
        then have "i \<le> nat ?mid" using mid by simp
        from frames_mono[OF "1.prems"(1) this mid(4)] lt show "?fr i < f" by simp
      next
        fix i assume "nat (high + 1) \<le> i" "i < length as"
        then show "f < ?fr i" using "1.prems"(6) by simp
      qed
      with eq show ?thesis by simp
    next
      case gt
      have eq: "getActionInsertIndex_loop as f low high = getActionInsertIndex_loop as f low (?mid - 1)"
        using True gt by (subst getActionInsertIndex_loop.simps) simp
      have "getActionInsertIndex_loop as f low (?mid - 1)
          = int (length (filter (\<lambda>a. executionFrame a \<le> f) as))"
      proof (rule "1.IH"(2)[OF True gt(1) gt(2) "1.prems"(1)])
        show "0 \<le> low" "?mid - 1 < int (length as)" "low \<le> ?mid - 1 + 1"
          using mid "1.prems" by auto
      next
        fix i assume "i < nat low" then show "?fr i < f" using "1.prems"(5) by simp
      next
        fix i assume a: "nat (?mid - 1 + 1) \<le> i" "i < length as"
        then have "nat ?mid \<le> i" by simp
        from frames_mono[OF "1.prems"(1) this a(2)] gt show "f < ?fr i" by simp
      qed
      with eq show ?thesis by simp
    next
      case eq
      let ?m = "getActionInsertIndex_scan as f ?mid"
      have res: "getActionInsertIndex_loop as f low high = ?m + 1"
        using True eq by (subst getActionInsertIndex_loop.simps) simp
      have sc: "?mid \<le> ?m" "?m < int (length as)" "?fr (nat ?m) = f"
        "?m + 1 < int (length as) \<longrightarrow> ?fr (nat (?m + 1)) \<noteq> f"
        using scan_spec[of ?mid as f] mid eq by auto
      have mlt: "nat ?m < length as" "0 \<le> ?m" using sc mid by linarith+
      have "length (filter (\<lambda>a. executionFrame a \<le> f) as) = nat (?m + 1)"
      proof (rule length_filter_split)
        show "nat (?m + 1) \<le> length as" using sc mid by simp
      next
        fix i assume "i < nat (?m + 1)"
        then have "i \<le> nat ?m" using sc mid by simp
        from frames_mono[OF "1.prems"(1) this mlt(1)] sc show "?fr i \<le> f" by simp
      next
        fix i assume a: "nat (?m + 1) \<le> i" "i < length as"
        then have b: "?m + 1 < int (length as)" using sc mid by linarith
        have "?fr (nat ?m) \<le> ?fr (nat (?m + 1))"
          using frames_mono[OF "1.prems"(1), of "nat ?m" "nat (?m + 1)"] b sc mid by simp
        with sc b have "f < ?fr (nat (?m + 1))" by simp
        moreover have "?fr (nat (?m + 1)) \<le> ?fr i"
          using frames_mono[OF "1.prems"(1) a(1) a(2)] .
        ultimately show "\<not> ?fr i \<le> f" by simp
      qed
      with res sc mid show ?thesis by simp
    qed
  qed
qed

lemma getActionInsertIndex_count:
  assumes "sorted (map executionFrame as)"
  shows "getActionInsertIndex as f = int (length (filter (\<lambda>a. executionFrame a \<le> f) as))"
  unfolding getActionInsertIndex_def
  by (rule loop_count[OF assms]) auto


lemma sorted_le_iff_below_count:
  assumes "sorted (map executionFrame as)" "i < length as"
  shows "(executionFrame (as ! i) \<le> f) = (i < length (filter (\<lambda>a. executionFrame a \<le> f) as))"
  using assms
proof (induction as arbitrary: i)
  case Nil
  then show ?case by simp
next
  case (Cons a as)
  show ?case
  proof (cases "executionFrame a \<le> f")
    case True
    with Cons show ?thesis by (cases i) auto
  next
    case False
    with Cons.prems have "\<forall>b\<in>set (a # as). f < executionFrame b" by auto
    then have "filter (\<lambda>a. executionFrame a \<le> f) (a # as) = []"
      by (auto simp: filter_empty_conv)
    moreover have "f < executionFrame ((a # as) ! i)"
      using \<open>\<forall>b\<in>set (a # as). f < executionFrame b\<close> Cons.prems(2) nth_mem by blast
    ultimately show ?thesis by simp
  qed
qed

text \<open>
  C2. On a queue sorted by \<open>executionFrame\<close>, the index computed for frame \<open>f\<close> is the
  number of queued actions whose frame is at most \<open>f\<close>: it is 0 when \<open>f\<close> is below every
  queued frame, the length when \<open>f\<close> is above every queued frame, and the position right
  after the last queued action with frame \<open>f\<close> when there is one.
\<close>

theorem getActionInsertIndex_sorted:
  assumes "sorted (map executionFrame as)"
  shows "getActionInsertIndex as f = int (length (filter (\<lambda>a. executionFrame a \<le> f) as))
       \<and> ((\<forall>a\<in>set as. f < executionFrame a) \<longrightarrow> getActionInsertIndex as f = 0)
       \<and> ((\<forall>a\<in>set as. executionFrame a < f) \<longrightarrow> getActionInsertIndex as f = int (length as))
       \<and> ((\<exists>a\<in>set as. executionFrame a = f) \<longrightarrow>
            (\<exists>j<length as. executionFrame (as ! j) = f
               \<and> (\<forall>i<length as. executionFrame (as ! i) = f \<longrightarrow> i \<le> j)
               \<and> getActionInsertIndex as f = int j + 1))"
proof -
  let ?k = "length (filter (\<lambda>a. executionFrame a \<le> f) as)"
  have cnt: "getActionInsertIndex as f = int ?k"
    by (rule getActionInsertIndex_count[OF assms])
  have small: "(\<forall>a\<in>set as. f < executionFrame a) \<longrightarrow> ?k = 0"
    by (auto simp: filter_empty_conv)
  have large: "(\<forall>a\<in>set as. executionFrame a < f) \<longrightarrow> ?k = length as"
  proof
    assume "\<forall>a\<in>set as. executionFrame a < f"
    then have "filter (\<lambda>a. executionFrame a \<le> f) as = as"
      by (auto simp: filter_id_conv)
    then show "?k = length as" by simp
  qed
  have found: "\<exists>j<length as. executionFrame (as ! j) = f
               \<and> (\<forall>i<length as. executionFrame (as ! i) = f \<longrightarrow> i \<le> j) \<and> ?k = j + 1"
    if ex: "\<exists>a\<in>set as. executionFrame a = f"
  proof -
    from ex obtain i0 where i0: "i0 < length as" "executionFrame (as ! i0) = f"
      by (auto simp: in_set_conv_nth)
    have below: "\<And>i. i < length as \<Longrightarrow> (executionFrame (as ! i) \<le> f) = (i < ?k)"
      by (rule sorted_le_iff_below_count[OF assms])
    have kle: "?k \<le> length as" by simp
    from below[OF i0(1)] i0(2) have k0: "i0 < ?k" by simp
    define j where "j = ?k - 1"
    have j: "j < length as" "j < ?k" "i0 \<le> j" "?k = j + 1"
      using k0 kle unfolding j_def by linarith+
    have "executionFrame (as ! j) \<le> f" using below[OF j(1)] j(2) by simp
    moreover have "f \<le> executionFrame (as ! j)"
      using frames_mono[OF assms j(3) j(1)] i0(2) by simp
    ultimately have "executionFrame (as ! j) = f" by simp
    moreover have "\<forall>i<length as. executionFrame (as ! i) = f \<longrightarrow> i \<le> j"
      using below j(4) by fastforce
    ultimately show ?thesis using j by blast
  qed
  show ?thesis
  proof (intro conjI impI)
    show "getActionInsertIndex as f = int ?k" by (rule cnt)
  next
    assume "\<forall>a\<in>set as. f < executionFrame a"
    with small cnt show "getActionInsertIndex as f = 0" by simp
  next
    assume "\<forall>a\<in>set as. executionFrame a < f"
    with large cnt show "getActionInsertIndex as f = int (length as)" by simp
  next
    assume "\<exists>a\<in>set as. executionFrame a = f"
    from found[OF this] obtain j where "j < length as" "executionFrame (as ! j) = f"
      "\<forall>i<length as. executionFrame (as ! i) = f \<longrightarrow> i \<le> j" "?k = j + 1" by blast
    moreover from this cnt have "getActionInsertIndex as f = int j + 1" by simp
    ultimately show "\<exists>j<length as. executionFrame (as ! j) = f
               \<and> (\<forall>i<length as. executionFrame (as ! i) = f \<longrightarrow> i \<le> j)
               \<and> getActionInsertIndex as f = int j + 1" by blast
  qed
qed

theorem getActionInsertIndex_sorted_witness:
  "getActionInsertIndex
     [\<lparr>aid = 0, callback = Opaque 0, executionFrame = 2, shouldCall = True\<rparr>,
      \<lparr>aid = 1, callback = Opaque 1, executionFrame = 2, shouldCall = True\<rparr>,
      \<lparr>aid = 2, callback = Opaque 2, executionFrame = 5, shouldCall = True\<rparr>] 2 = 2"
  using getActionInsertIndex_sorted[of
     "[\<lparr>aid = 0, callback = Opaque 0, executionFrame = 2, shouldCall = True\<rparr>,
      \<lparr>aid = 1, callback = Opaque 1, executionFrame = 2, shouldCall = True\<rparr>,
      \<lparr>aid = 2, callback = Opaque 2, executionFrame = 5, shouldCall = True\<rparr>]" 2]
  by simp

section \<open>Insertion into a sorted queue; the bound on iterations\<close>

lemma splice_insert_nat:
  "k \<le> length xs \<Longrightarrow> splice_insert (int k) x xs = take k xs @ x # drop k xs"
  by (simp add: splice_insert_def Let_def min_def)

lemma sorted_take_count:
  assumes "sorted (map executionFrame as)"
  shows "take (length (filter (\<lambda>a. executionFrame a \<le> f) as)) as = filter (\<lambda>a. executionFrame a \<le> f) as
       \<and> drop (length (filter (\<lambda>a. executionFrame a \<le> f) as)) as = filter (\<lambda>a. f < executionFrame a) as"
  using assms
proof (induction as)
  case Nil
  then show ?case by simp
next
  case (Cons a as)
  show ?case
  proof (cases "executionFrame a \<le> f")
    case True
    with Cons show ?thesis by auto
  next
    case False
    with Cons.prems have all: "\<forall>b\<in>set (a # as). f < executionFrame b" by auto
    then have "filter (\<lambda>a. executionFrame a \<le> f) (a # as) = []"
      by (auto simp: filter_empty_conv)
    moreover from all have "filter (\<lambda>a. f < executionFrame a) (a # as) = a # as"
      by (auto simp: filter_id_conv)
    ultimately show ?thesis by simp
  qed
qed

lemma splice_at_index_sorted:
  assumes "sorted (map executionFrame q)"
  shows "splice_insert (getActionInsertIndex q (executionFrame a)) a q = insert_by_frame a q"
  using sorted_take_count[OF assms, of "executionFrame a"]
  by (simp add: getActionInsertIndex_count[OF assms] splice_insert_nat insert_by_frame_def)

lemma testSchedule_sorted:
  assumes "sorted (map executionFrame (actions w))"
  shows "testSchedule cb d sub w =
     (if (case sub of Some x \<Rightarrow> \<not> active (disposables w x) | None \<Rightarrow> False) then w
      else (case sub of
              None \<Rightarrow> w\<lparr>actions := insert_by_frame \<lparr>aid = next_ref w, callback = cb,
                                   executionFrame = currentFrame w + d, shouldCall = True\<rparr> (actions w),
                          next_ref := Suc (next_ref w)\<rparr>
            | Some x \<Rightarrow> w\<lparr>actions := insert_by_frame \<lparr>aid = next_ref w, callback = cb,
                                   executionFrame = currentFrame w + d, shouldCall = True\<rparr> (actions w),
                          next_ref := Suc (next_ref w),
                          disposables := (disposables w)
                            (x := (disposables w x)\<lparr>teardowns := teardowns (disposables w x) @
                                                     [CancelAction (next_ref w)]\<rparr>)\<rparr>))"
  using splice_at_index_sorted[OF assms, of "\<lparr>aid = next_ref w, callback = cb,
                                   executionFrame = currentFrame w + d, shouldCall = True\<rparr>"]
  by (auto simp: testSchedule_def Let_def Disposable_add_def split: option.splits)



lemma run_callback_Opaque:
  "is_Opaque cb \<Longrightarrow> run_callback n cb w = Some (Returned w)"
  by (cases cb) simp_all

lemma fuel_mono:
  "flush_loop n w = Some r \<Longrightarrow> flush_loop (n + m) w = Some r"
  "run_callback n cb w = Some r' \<Longrightarrow> run_callback (n + m) cb w = Some r'"
  "flush n w = Some r'' \<Longrightarrow> flush (n + m) w = Some r''"
proof (induction n w and n cb w and n w arbitrary: r and r' and r''
       rule: flush_loop_run_callback_flush.induct)
  case (2 n w)
  show ?case
  proof (cases "actions w")
    case Nil
    with "2.prems" show ?thesis by simp
  next
    case (Cons a rest)
    show ?thesis
    proof (cases "shouldCall a")
      case False
      with Cons "2.prems" "2.IH"(3) show ?thesis by (simp add: Let_def)
    next
      case True
      let ?w1 = "w\<lparr>actions := rest, currentFrame := executionFrame a\<rparr>"
      let ?w1' = "?w1\<lparr>invoked := invoked ?w1 @ [a]\<rparr>"
      from True Cons "2.prems" obtain r1 where r1: "run_callback n (callback a) ?w1' = Some r1"
        by (auto simp: Let_def split: option.splits)
      from "2.IH"(1)[OF Cons refl True r1] have r1': "run_callback (n + m) (callback a) ?w1' = Some r1" .
      show ?thesis
      proof (cases r1)
        case (Raised e w2)
        with True Cons "2.prems" r1 r1' show ?thesis by (simp add: Let_def)
      next
        case (Returned w2)
        with True Cons "2.prems" r1 have "flush_loop n w2 = Some r" by (simp add: Let_def)
        from "2.IH"(2)[OF Cons refl True r1 Returned this]
        show ?thesis using True Cons r1' Returned by (simp add: Let_def)
      qed
    qed
  qed
next
  case (13 n cb cbs w)
  from "13.prems" obtain r1 where r1: "run_callback n cb w = Some r1"
    by (auto split: option.splits)
  from "13.IH"(1)[OF r1] have r1': "run_callback (n + m) cb w = Some r1" .
  show ?case
  proof (cases r1)
    case (Raised e w2)
    with "13.prems" r1 have "r' = Raised e w2" by simp
    with r1' Raised show ?thesis by simp
  next
    case (Returned w2)
    with "13.prems" r1 have "run_callback n (Seq cbs) w2 = Some r'" by simp
    from "13.IH"(2)[OF r1 Returned this] show ?thesis using r1' Returned by simp
  qed
next
  case (14 n w)
  show ?case
  proof (cases "isFlushing w")
    case True
    with "14.prems" show ?thesis by (simp add: flush.simps)
  next
    case False
    with "14.prems" obtain r1 where r1: "flush_loop n (w\<lparr>isFlushing := True\<rparr>) = Some r1"
      by (auto simp: flush.simps split: option.splits)
    from "14.IH"[OF False r1] have "flush_loop (n + m) (w\<lparr>isFlushing := True\<rparr>) = Some r1" .
    with False r1 "14.prems" show ?thesis by (simp add: flush.simps)
  qed
qed (simp_all add: flush.simps)

section \<open>Flushing a queue of callbacks that leave the schedule alone\<close>

lemma flush_loop_Opaque:
  assumes "\<forall>a\<in>set (actions w). is_Opaque (callback a)"
    and "length (actions w) < n"
  shows "flush_loop n w =
     Some (Returned (w\<lparr>actions := [],
                        currentFrame := (if actions w = [] then currentFrame w
                                         else executionFrame (last (actions w))),
                        invoked := invoked w @ filter shouldCall (actions w)\<rparr>))"
  using assms
proof (induction "actions w" arbitrary: w n)
  case Nil
  then obtain k where "n = Suc k" by (cases n) auto
  with Nil show ?case by simp
next
  case (Cons a rest)
  from Cons.prems(2) Cons.hyps(2)[symmetric] obtain k where n: "n = Suc k" and k: "length rest < k"
    by (cases n) auto
  let ?w1 = "w\<lparr>actions := rest, currentFrame := executionFrame a\<rparr>"
  let ?w1' = "?w1\<lparr>invoked := invoked ?w1 @ [a]\<rparr>"
  from Cons.prems(1) Cons.hyps(2)[symmetric]
  have op: "is_Opaque (callback a)" "\<forall>b\<in>set rest. is_Opaque (callback b)" by auto
  show ?case
  proof (cases "shouldCall a")
    case True
    have "flush_loop n w = flush_loop k ?w1'"
      using True Cons.hyps(2)[symmetric] n run_callback_Opaque[OF op(1)] by (simp add: Let_def)
    also have "\<dots> = Some (Returned (?w1'\<lparr>actions := [],
                        currentFrame := (if actions ?w1' = [] then currentFrame ?w1'
                                         else executionFrame (last (actions ?w1'))),
                        invoked := invoked ?w1' @ filter shouldCall (actions ?w1')\<rparr>))"
      by (rule Cons.hyps(1)) (use op k in simp_all)
    finally show ?thesis using True Cons.hyps(2)[symmetric] by simp
  next
    case False
    have "flush_loop n w = flush_loop k ?w1"
      using False Cons.hyps(2)[symmetric] n by (simp add: Let_def)
    also have "\<dots> = Some (Returned (?w1\<lparr>actions := [],
                        currentFrame := (if actions ?w1 = [] then currentFrame ?w1
                                         else executionFrame (last (actions ?w1))),
                        invoked := invoked ?w1 @ filter shouldCall (actions ?w1)\<rparr>))"
      by (rule Cons.hyps(1)) (use op k in simp_all)
    finally show ?thesis using False Cons.hyps(2)[symmetric] by simp
  qed
qed

lemma flush_Opaque:
  assumes "\<forall>a\<in>set (actions w). is_Opaque (callback a)"
    and "length (actions w) < n" "\<not> isFlushing w"
  shows "flush n w =
     Some (Returned (w\<lparr>actions := [],
                        currentFrame := (if actions w = [] then currentFrame w
                                         else executionFrame (last (actions w))),
                        invoked := invoked w @ filter shouldCall (actions w)\<rparr>))"
  using assms flush_loop_Opaque[of "w\<lparr>isFlushing := True\<rparr>" n]
  by (simp add: flush.simps)

section \<open>Scheduling calls with non-decreasing frames\<close>

lemma testSchedule_append:
  assumes "sorted (map executionFrame (actions w))"
    and "\<forall>a\<in>set (actions w). executionFrame a \<le> currentFrame w + d"
    and "sub_ok w sub"
  shows "actions (testSchedule cb d sub w) =
           actions w @ [\<lparr>aid = next_ref w, callback = cb,
                         executionFrame = currentFrame w + d, shouldCall = True\<rparr>]"
    and "currentFrame (testSchedule cb d sub w) = currentFrame w"
    and "isFlushing (testSchedule cb d sub w) = isFlushing w"
    and "invoked (testSchedule cb d sub w) = invoked w"
    and "active (disposables (testSchedule cb d sub w) x) = active (disposables w x)"
proof -
  have a: "filter (\<lambda>b. executionFrame b \<le> currentFrame w + d) (actions w) = actions w"
    using assms(2) by (auto simp: filter_id_conv)
  have b: "filter (\<lambda>b. currentFrame w + d < executionFrame b) (actions w) = []"
    using assms(2) by (auto simp: filter_empty_conv)
  show "actions (testSchedule cb d sub w) =
           actions w @ [\<lparr>aid = next_ref w, callback = cb,
                         executionFrame = currentFrame w + d, shouldCall = True\<rparr>]"
    using assms(3) a b
    by (simp add: testSchedule_sorted[OF assms(1)] insert_by_frame_def sub_ok_def split: option.splits)
  show "currentFrame (testSchedule cb d sub w) = currentFrame w"
    by (simp add: testSchedule_sorted[OF assms(1)] split: option.splits)
  show "isFlushing (testSchedule cb d sub w) = isFlushing w"
    by (simp add: testSchedule_sorted[OF assms(1)] split: option.splits)
  show "invoked (testSchedule cb d sub w) = invoked w"
    by (simp add: testSchedule_sorted[OF assms(1)] split: option.splits)
  show "active (disposables (testSchedule cb d sub w) x) = active (disposables w x)"
    by (simp add: testSchedule_sorted[OF assms(1)] split: option.splits)
qed

lemma schedule_all_append:
  assumes "sorted (map executionFrame (actions w))"
    and "\<forall>a\<in>set (actions w). \<forall>(cb, d, s)\<in>set calls. executionFrame a \<le> currentFrame w + d"
    and "sorted (map (\<lambda>(cb, d, s). currentFrame w + d) calls)"
    and "\<forall>(cb, d, s)\<in>set calls. sub_ok w s"
  shows "map callback (actions (schedule_all calls w)) = map callback (actions w) @ map fst calls
       \<and> map executionFrame (actions (schedule_all calls w))
           = map executionFrame (actions w) @ map (\<lambda>(cb, d, s). currentFrame w + d) calls
       \<and> map shouldCall (actions (schedule_all calls w))
           = map shouldCall (actions w) @ replicate (length calls) True
       \<and> currentFrame (schedule_all calls w) = currentFrame w
       \<and> isFlushing (schedule_all calls w) = isFlushing w
       \<and> invoked (schedule_all calls w) = invoked w"
  using assms
proof (induction calls arbitrary: w)
  case Nil
  then show ?case by (simp add: schedule_all_def)
next
  case (Cons c calls)
  obtain cb d s where c: "c = (cb, d, s)" by (cases c)
  let ?w = "testSchedule cb d s w"
  have q: "\<forall>a\<in>set (actions w). executionFrame a \<le> currentFrame w + d"
    using Cons.prems(2) c by auto
  have ok: "sub_ok w s" using Cons.prems(4) c by auto
  note ts = testSchedule_append[OF Cons.prems(1) q ok, of cb]
  have step: "schedule_all (c # calls) w = schedule_all calls ?w"
    by (simp add: schedule_all_def c)
  have le: "\<forall>(cb', d', s')\<in>set calls. currentFrame w + d \<le> currentFrame w + d'"
    using Cons.prems(3) c by auto
  have 1: "sorted (map executionFrame (actions ?w))"
    using Cons.prems(1) q by (simp add: ts sorted_append)
  have 2: "\<forall>a\<in>set (actions ?w). \<forall>(cb, d, s)\<in>set calls. executionFrame a \<le> currentFrame ?w + d"
    using Cons.prems(2) le by (auto simp: ts)
  have 3: "sorted (map (\<lambda>(cb, d, s). currentFrame ?w + d) calls)"
    using Cons.prems(3) by (simp add: ts c)
  have 4: "\<forall>(cb, d, s)\<in>set calls. sub_ok ?w s"
    using Cons.prems(4) by (auto simp: sub_ok_def ts split: option.splits)
  from Cons.IH[OF 1 2 3 4] show ?case
    unfolding step by (simp add: ts c)
qed

text \<open>
  C1. On a schedule with an empty queue, scheduling calls whose subscriptions are absent
  or active and whose execution frames \<open>currentFrame + delayFrames\<close> are non-decreasing in
  call order leave the queue in the order of the calls, every action with \<open>shouldCall\<close>
  true, whatever the callbacks are. \<open>flush\<close> then takes the actions from the front: when
  the callbacks return normally and leave the schedule and the subscriptions alone, it
  invokes them in the order of the calls, each at its execution frame.
\<close>

theorem flush_runs_in_scheduling_order:
  assumes "actions w = []"
    and "\<forall>(cb, d, s)\<in>set calls. sub_ok w s"
    and "sorted (map (\<lambda>(cb, d, s). currentFrame w + d) calls)"
  shows "map callback (actions (schedule_all calls w)) = map fst calls
       \<and> map executionFrame (actions (schedule_all calls w))
           = map (\<lambda>(cb, d, s). currentFrame w + d) calls
       \<and> map shouldCall (actions (schedule_all calls w)) = replicate (length calls) True
       \<and> (if (\<forall>(cb, d, s)\<in>set calls. is_Opaque cb) \<and> \<not> isFlushing w
          then \<exists>w'. flush (Suc (length calls)) (schedule_all calls w) = Some (Returned w')
                 \<and> map callback (invoked w') = map callback (invoked w) @ map fst calls
                 \<and> map executionFrame (invoked w')
                     = map executionFrame (invoked w)
                       @ map (\<lambda>(cb, d, s). currentFrame w + d) calls
          else True)"
proof -
  let ?w = "schedule_all calls w"
  have s0: "sorted (map executionFrame (actions w))"
    and q0: "\<forall>a\<in>set (actions w). \<forall>(cb, d, s)\<in>set calls. executionFrame a \<le> currentFrame w + d"
    using assms(1) by simp_all
  note r = schedule_all_append[OF s0 q0 assms(3) assms(2)]
  have sa: "map callback (actions ?w) = map fst calls"
    "map executionFrame (actions ?w) = map (\<lambda>(cb, d, s). currentFrame w + d) calls"
    "map shouldCall (actions ?w) = replicate (length calls) True"
    "isFlushing ?w = isFlushing w" "invoked ?w = invoked w"
    using r assms(1) by simp_all
  have len: "length (actions ?w) = length calls"
    using sa(1) by (metis length_map)
  have allc: "filter shouldCall (actions ?w) = actions ?w"
  proof -
    have "\<forall>a\<in>set (actions ?w). shouldCall a"
    proof
      fix a assume "a \<in> set (actions ?w)"
      then have "shouldCall a \<in> set (map shouldCall (actions ?w))" by simp
      then show "shouldCall a" unfolding sa(3) by auto
    qed
    then show ?thesis by (simp add: filter_id_conv)
  qed
  have run: "\<exists>w'. flush (Suc (length calls)) ?w = Some (Returned w')
                 \<and> map callback (invoked w') = map callback (invoked w) @ map fst calls
                 \<and> map executionFrame (invoked w')
                     = map executionFrame (invoked w)
                       @ map (\<lambda>(cb, d, s). currentFrame w + d) calls"
    if e: "\<forall>(cb, d, s)\<in>set calls. is_Opaque cb" "\<not> isFlushing w"
  proof -
    have opq: "\<forall>a\<in>set (actions ?w). is_Opaque (callback a)"
    proof
      fix a assume "a \<in> set (actions ?w)"
      then have "callback a \<in> set (map callback (actions ?w))" by simp
      then have "callback a \<in> fst ` set calls" unfolding sa(1) by simp
      with e(1) show "is_Opaque (callback a)" by auto
    qed
    have "flush (Suc (length calls)) ?w = Some (Returned (?w\<lparr>actions := [],
                        currentFrame := (if actions ?w = [] then currentFrame ?w
                                         else executionFrame (last (actions ?w))),
                        invoked := invoked ?w @ filter shouldCall (actions ?w)\<rparr>))"
      by (rule flush_Opaque[OF opq]) (use len e sa in simp_all)
    then show ?thesis using sa allc by simp
  qed
  show ?thesis using sa(1,2,3) run by simp
qed

theorem flush_runs_in_scheduling_order_witness:
  "\<exists>w'. flush 4 (schedule_all [(Opaque 1, 2, None), (Opaque 2, 2, Some 0), (Opaque 3, 5, None)]
                    TestSchedule) = Some (Returned w')
        \<and> map callback (invoked w') = [Opaque 1, Opaque 2, Opaque 3]
        \<and> map executionFrame (invoked w') = [2, 2, 5]"
  using flush_runs_in_scheduling_order[of TestSchedule
          "[(Opaque 1, 2, None), (Opaque 2, 2, Some 0), (Opaque 3, 5, None)]"]
  by (auto simp: TestSchedule_def sub_ok_def numeral_eq_Suc)

section \<open>Concrete runs\<close>

lemmas run_defs = schedule_all_def testSchedule_sorted insert_by_frame_def TestSchedule_def
  TestSource_def watchSourceEvents_def newDisposable_def Source_call_def
  TestSource_subscribe_def watchSubscriptionInfo_def push_subscription_def Disposable_add_def
  dispose_def run_teardown_def Sink_call_def P_def E_def T_def reset_def Subject_push_def
  Subject_subscribe_def SharedTestSource_def SharedTestSource_subscribe_def
  SharedTestSource_schedule_def subscriptions_of_def Let_def numeral_eq_Suc

text \<open>
  C6. On a fresh schedule, scheduling \<open>(cb1, 5)\<close>, \<open>(cb2, 2)\<close>, \<open>(cb3, 2)\<close> in that order and
  flushing invokes \<open>cb2\<close>, \<open>cb3\<close>, \<open>cb1\<close> at frames 2, 2, 5 and leaves \<open>currentFrame\<close> at 5.
\<close>

theorem scenario_A:
  "\<exists>w'. flush 4 (schedule_all [(Opaque 1, 5, None), (Opaque 2, 2, None), (Opaque 3, 2, None)]
                    TestSchedule) = Some (Returned w')
        \<and> map callback (invoked w') = [Opaque 2, Opaque 3, Opaque 1]
        \<and> map executionFrame (invoked w') = [2, 2, 5]
        \<and> currentFrame w' = 5"
  by (simp add: run_defs flush.simps)

text \<open>
  C7. On a fresh schedule, the test source of \<open>[P(1, 0), P(2, 10), E(20)]\<close> watched through
  \<open>watchSourceEvents\<close> with the window \<open>TestSubscriptionInfo(0, 25)\<close> records, after \<open>flush\<close>,
  \<open>Push 1\<close> at frame 0, \<open>Push 2\<close> at frame 10 and \<open>End\<close> at frame 20; the source reports one
  subscription, started at frame 0.
\<close>

theorem scenario_B:
  "\<exists>s w1 r w2 w3.
      TestSource [P 1 0, P 2 10, E 20] TestSchedule = (TestSourceRef s, w1)
    \<and> watchSourceEvents (TestSourceRef s)
          \<lparr>subscriptionStartFrame = 0, subscriptionEndFrame = Frame 25\<rparr> w1 = Some (r, w2)
    \<and> flush 6 w2 = Some (Returned w3)
    \<and> recorded w3 r = [\<lparr>event = Push 1, frame = 0\<rparr>, \<lparr>event = Push 2, frame = 10\<rparr>,
                       \<lparr>event = End, frame = 20\<rparr>]
    \<and> map subscriptionStartFrame (subscriptions_of w3 s) = [0]"
  by (simp add: run_defs flush.simps)

section \<open>A callback that throws\<close>

lemma flush_loop_Opaque_prefix:
  assumes "actions w = pre @ rest"
    and "\<forall>b\<in>set pre. is_Opaque (callback b)"
  shows "flush_loop (length pre + k) w =
         flush_loop k (w\<lparr>actions := rest,
                          currentFrame := (if pre = [] then currentFrame w
                                           else executionFrame (last pre)),
                          invoked := invoked w @ filter shouldCall pre\<rparr>)"
  using assms
proof (induction pre arbitrary: w)
  case Nil
  then have "rest = actions w" by simp
  then show ?case by simp
next
  case (Cons b pre)
  let ?w1 = "w\<lparr>actions := pre @ rest, currentFrame := executionFrame b\<rparr>"
  let ?w1' = "?w1\<lparr>invoked := invoked ?w1 @ [b]\<rparr>"
  from Cons.prems have op: "is_Opaque (callback b)" "\<forall>c\<in>set pre. is_Opaque (callback c)" by auto
  show ?case
  proof (cases "shouldCall b")
    case True
    have "flush_loop (length (b # pre) + k) w = flush_loop (length pre + k) ?w1'"
      using True Cons.prems(1) run_callback_Opaque[OF op(1)] by (simp add: Let_def)
    also have "\<dots> = flush_loop k (?w1'\<lparr>actions := rest,
                          currentFrame := (if pre = [] then currentFrame ?w1'
                                           else executionFrame (last pre)),
                          invoked := invoked ?w1' @ filter shouldCall pre\<rparr>)"
      by (rule Cons.IH) (use op in simp_all)
    finally show ?thesis using True by simp
  next
    case False
    have "flush_loop (length (b # pre) + k) w = flush_loop (length pre + k) ?w1"
      using False Cons.prems(1) by (simp add: Let_def)
    also have "\<dots> = flush_loop k (?w1\<lparr>actions := rest,
                          currentFrame := (if pre = [] then currentFrame ?w1
                                           else executionFrame (last pre)),
                          invoked := invoked ?w1 @ filter shouldCall pre\<rparr>)"
      by (rule Cons.IH) (use op in simp_all)
    finally show ?thesis using False by simp
  qed
qed

text \<open>Whatever the callbacks are, a flush that raises leaves the schedule reset.\<close>

lemma flush_raised_is_reset:
  "flush_loop n w = Some (Raised err w') \<Longrightarrow>
     actions w' = [] \<and> currentFrame w' = 0 \<and> \<not> isFlushing w'"
  "run_callback n cb w = Some r \<Longrightarrow> True"
  "flush n w = Some (Raised err w') \<Longrightarrow>
     actions w' = [] \<and> currentFrame w' = 0 \<and> \<not> isFlushing w'"
proof (induction n w and n cb w and n w arbitrary: err w' and r and err w'
       rule: flush_loop_run_callback_flush.induct)
  case (2 n w)
  show ?case
  proof (cases "actions w")
    case Nil
    with "2.prems" show ?thesis by simp
  next
    case (Cons a rest)
    let ?w1 = "w\<lparr>actions := rest, currentFrame := executionFrame a\<rparr>"
    let ?w1' = "?w1\<lparr>invoked := invoked ?w1 @ [a]\<rparr>"
    show ?thesis
    proof (cases "shouldCall a")
      case False
      with Cons "2.prems" have "flush_loop n ?w1 = Some (Raised err w')" by (simp add: Let_def)
      from "2.IH"(3)[OF Cons refl False this] show ?thesis .
    next
      case True
      from True Cons "2.prems" obtain r1 where r1: "run_callback n (callback a) ?w1' = Some r1"
        by (auto simp: Let_def split: option.splits)
      show ?thesis
      proof (cases r1)
        case (Raised e w2)
        with True Cons "2.prems" r1 have "w' = reset w2" by (simp add: Let_def)
        then show ?thesis by (simp add: reset_def)
      next
        case (Returned w2)
        with True Cons "2.prems" r1 have "flush_loop n w2 = Some (Raised err w')"
          by (simp add: Let_def)
        from "2.IH"(2)[OF Cons refl True r1 Returned this] show ?thesis .
      qed
    qed
  qed
next
  case (14 n w)
  show ?case
  proof (cases "isFlushing w")
    case True
    with "14.prems" show ?thesis by (simp add: flush.simps)
  next
    case False
    with "14.prems" have "flush_loop n (w\<lparr>isFlushing := True\<rparr>) = Some (Raised err w')"
      by (auto simp: flush.simps split: option.splits outcome.splits)
    from "14.IH"[OF False this] show ?thesis .
  qed
qed simp_all

text \<open>
  C4. When \<open>flush\<close> reaches an action whose callback throws (the actions before it
  returning normally), \<open>flush\<close> raises the same exception; the world it leaves is the
  world at the throw after \<open>reset()\<close>: empty queue, \<open>currentFrame\<close> 0, guard cleared, and no
  callback invoked after the throw. Whatever the callbacks are, a \<open>flush\<close> that raises
  leaves the queue empty, \<open>currentFrame\<close> 0 and the guard cleared.
\<close>

theorem throwing_callback_aborts_flush:
  assumes "\<not> isFlushing w"
    and "actions w = pre @ a # post"
    and "\<forall>b\<in>set pre. is_Opaque (callback b)"
    and "shouldCall a"
    and "run_callback k (callback a)
           (w\<lparr>isFlushing := True, actions := post, currentFrame := executionFrame a,
              invoked := invoked w @ filter shouldCall pre @ [a]\<rparr>) = Some (Raised err w2)"
  shows "flush (length pre + Suc k) w = Some (Raised err (reset w2))
       \<and> actions (reset w2) = [] \<and> currentFrame (reset w2) = 0 \<and> \<not> isFlushing (reset w2)
       \<and> invoked (reset w2) = invoked w2
       \<and> (\<forall>m u e u'. flush m u = Some (Raised e u') \<longrightarrow>
              actions u' = [] \<and> currentFrame u' = 0 \<and> \<not> isFlushing u')"
proof -
  let ?w0 = "w\<lparr>isFlushing := True\<rparr>"
  let ?w1 = "?w0\<lparr>actions := a # post,
                   currentFrame := (if pre = [] then currentFrame ?w0 else executionFrame (last pre)),
                   invoked := invoked ?w0 @ filter shouldCall pre\<rparr>"
  have "flush_loop (length pre + Suc k) ?w0 = flush_loop (Suc k) ?w1"
    by (rule flush_loop_Opaque_prefix) (use assms in simp_all)
  also have "\<dots> = Some (Raised err (reset w2))"
    using assms(4,5) by (simp add: Let_def)
  finally have "flush (length pre + Suc k) w = Some (Raised err (reset w2))"
    using assms(1) by (simp add: flush.simps)
  moreover have "\<forall>m u e u'. flush m u = Some (Raised e u') \<longrightarrow>
              actions u' = [] \<and> currentFrame u' = 0 \<and> \<not> isFlushing u'"
    using flush_raised_is_reset(3) by blast
  ultimately show ?thesis by (simp add: reset_def)
qed


theorem throwing_callback_aborts_flush_witness:
  "flush 2 (TestSchedule\<lparr>actions :=
        [\<lparr>aid = 0, callback = Opaque 2, executionFrame = 1, shouldCall = True\<rparr>,
         \<lparr>aid = 1, callback = Throwing 7, executionFrame = 2, shouldCall = True\<rparr>,
         \<lparr>aid = 2, callback = Opaque 3, executionFrame = 3, shouldCall = True\<rparr>]\<rparr>)
   = Some (Raised 7 (TestSchedule\<lparr>invoked :=
        [\<lparr>aid = 0, callback = Opaque 2, executionFrame = 1, shouldCall = True\<rparr>,
         \<lparr>aid = 1, callback = Throwing 7, executionFrame = 2, shouldCall = True\<rparr>]\<rparr>))"
  using throwing_callback_aborts_flush[of
     "TestSchedule\<lparr>actions :=
        [\<lparr>aid = 0, callback = Opaque 2, executionFrame = 1, shouldCall = True\<rparr>,
         \<lparr>aid = 1, callback = Throwing 7, executionFrame = 2, shouldCall = True\<rparr>,
         \<lparr>aid = 2, callback = Opaque 3, executionFrame = 3, shouldCall = True\<rparr>]\<rparr>"
     "[\<lparr>aid = 0, callback = Opaque 2, executionFrame = 1, shouldCall = True\<rparr>]"
     "\<lparr>aid = 1, callback = Throwing 7, executionFrame = 2, shouldCall = True\<rparr>"
     "[\<lparr>aid = 2, callback = Opaque 3, executionFrame = 3, shouldCall = True\<rparr>]"
     0 7
     "TestSchedule\<lparr>isFlushing := True, actions := [\<lparr>aid = 2, callback = Opaque 3, executionFrame = 3, shouldCall = True\<rparr>],
         currentFrame := 2, invoked := 
        [\<lparr>aid = 0, callback = Opaque 2, executionFrame = 1, shouldCall = True\<rparr>,
         \<lparr>aid = 1, callback = Throwing 7, executionFrame = 2, shouldCall = True\<rparr>]\<rparr>"]
  by (simp add: TestSchedule_def reset_def numeral_2_eq_2)

section \<open>Negative delays\<close>

lemma splice_insert_props:
  "length (splice_insert i x xs) = Suc (length xs)" "set (splice_insert i x xs) = insert x (set xs)"
proof -
  define s where "s = nat (if i < 0 then max (int (length xs) + i) 0 else min i (int (length xs)))"
  have eq: "splice_insert i x xs = take s xs @ x # drop s xs"
    by (simp add: splice_insert_def Let_def s_def)
  show "length (splice_insert i x xs) = Suc (length xs)"
    unfolding eq by simp
  have "set (take s xs) \<union> set (drop s xs) = set xs"
    by (metis append_take_drop_id set_append)
  then show "set (splice_insert i x xs) = insert x (set xs)"
    unfolding eq by auto
qed





section \<open>Nested calls of flush\<close>




section \<open>A cancelled action stays cancelled\<close>

lemma run_teardown_fields:
  "map aid (actions (run_teardown t w)) = map aid (actions w)"
  "map callback (actions (run_teardown t w)) = map callback (actions w)"
  "map executionFrame (actions (run_teardown t w)) = map executionFrame (actions w)"
  "invoked (run_teardown t w) = invoked w"
  "next_ref (run_teardown t w) = next_ref w"
  "currentFrame (run_teardown t w) = currentFrame w"
  "isFlushing (run_teardown t w) = isFlushing w"
  "disposables (run_teardown t w) = disposables w"
  by (cases t; simp add: run_teardown_def comp_def)+



lemma cancelled_disposables [simp]:
  "cancelled i (w\<lparr>disposables := ds\<rparr>) = cancelled i w"
  "cancelled i (w\<lparr>infos := fs\<rparr>) = cancelled i w"
  "cancelled i (w\<lparr>sources := ss\<rparr>) = cancelled i w"
  "cancelled i (w\<lparr>subjects := js\<rparr>) = cancelled i w"
  "cancelled i (w\<lparr>recorded := rs\<rparr>) = cancelled i w"
  "cancelled i (w\<lparr>isFlushing := b\<rparr>) = cancelled i w"
  "cancelled i (w\<lparr>currentFrame := c\<rparr>) = cancelled i w"
  by (simp_all add: cancelled_def)











section \<open>Disposing the subscription of a queued action\<close>






text \<open>
  A disposal made by a callback during the flush: the action at frame 4 is scheduled
  with subscription 5, the callback at frame 1 disposes it, and \<open>flush\<close> invokes the
  callbacks at frames 1 and 6 only.
\<close>

lemma cancellation_during_flush:
  "\<exists>w'. flush 4 (schedule_all [(CallDispose 5, 1, None), (Opaque 2, 4, Some 5),
                                (Opaque 3, 6, None)] TestSchedule) = Some (Returned w')
        \<and> map callback (invoked w') = [CallDispose 5, Opaque 3]
        \<and> currentFrame w' = 6"
  by (simp add: run_defs flush.simps)



section \<open>SharedTestSource\<close>

lemma testSchedule_not_ok: "\<not> sub_ok w sub \<Longrightarrow> testSchedule cb dl sub w = w"
  by (auto simp: testSchedule_def sub_ok_def split: option.splits)

lemma testSchedule_ok_fields:
  assumes "sub_ok w sub"
  shows "length (actions (testSchedule cb dl sub w)) = Suc (length (actions w))"
    and "callback ` set (actions (testSchedule cb dl sub w)) = insert cb (callback ` set (actions w))"
    and "sub_ok (testSchedule cb dl sub w) sub"
  using assms
  by (auto simp: testSchedule_def sub_ok_def Let_def Disposable_add_def splice_insert_props
           split: option.splits)

lemma fold_testSchedule_ok:
  assumes "sub_ok w sub"
  shows "length (actions (fold (\<lambda>e. testSchedule (g e) (frame e) sub) es w))
           = length (actions w) + length es
       \<and> callback ` set (actions (fold (\<lambda>e. testSchedule (g e) (frame e) sub) es w))
           = callback ` set (actions w) \<union> g ` set es"
  using assms
proof (induction es arbitrary: w)
  case Nil
  show ?case by simp
next
  case (Cons e es)
  note f = testSchedule_ok_fields[OF Cons.prems, of "g e" "frame e"]
  from Cons.IH[OF f(3)] show ?case by (auto simp: f)
qed

lemma fold_testSchedule_not_ok:
  "\<not> sub_ok w sub \<Longrightarrow> fold (\<lambda>e. testSchedule (g e) (frame e) sub) es w = w"
  by (induction es) (simp_all add: testSchedule_not_ok)

lemma testSchedule_subjects_commute:
  "testSchedule cb dl sub (w\<lparr>subjects := S\<rparr>) = (testSchedule cb dl sub w)\<lparr>subjects := S\<rparr>"
  by (auto simp: testSchedule_def Let_def Disposable_add_def run_teardown_def split: option.splits)

lemma fold_testSchedule_subjects_commute:
  "fold (\<lambda>e. testSchedule (g e) (frame e) sub) es (w\<lparr>subjects := S\<rparr>)
   = (fold (\<lambda>e. testSchedule (g e) (frame e) sub) es w)\<lparr>subjects := S\<rparr>"
  by (induction es arbitrary: w) (simp_all add: testSchedule_subjects_commute)

text \<open>
  C9, as amended. Subscribing a sink to a shared test source leaves the queue and
  \<open>currentFrame\<close> as they are: it appends one info object to the subscriptions of the
  source and registers the sink with the subject (a sink whose disposable is already
  inactive is removed again at once). \<open>schedule(subscription?)\<close> with an absent or active
  subscription enqueues one action per declared event, each pushing its event into the
  subject, whatever the subject's registry holds; with a subscription that is already
  inactive it changes nothing.
\<close>

theorem shared_source_subscribe_and_schedule:
  "actions (Source_call (SharedTestSourceRef r) k w) = actions w
   \<and> currentFrame (Source_call (SharedTestSourceRef r) k w) = currentFrame w
   \<and> subscriptions (sources (Source_call (SharedTestSourceRef r) k w) r)
       = subscriptions (sources w r) @ [next_ref w]
   \<and> infos (Source_call (SharedTestSourceRef r) k w) (next_ref w)
       = \<lparr>subscriptionStartFrame = currentFrame w,
          subscriptionEndFrame = (if active (disposables w (subscription k)) then Infinity
                                  else Frame (currentFrame w))\<rparr>
   \<and> subjects (Source_call (SharedTestSourceRef r) k w) r
       = (if active (disposables w (subscription k)) then subjects w r @ [k]
          else remove1 k (subjects w r @ [k]))
   \<and> (if sub_ok w sub
       then length (actions (SharedTestSource_schedule r sub w))
              = length (actions w) + length (events (sources w r))
          \<and> callback ` set (actions (SharedTestSource_schedule r sub w))
              = callback ` set (actions w) \<union> CallSubject r ` set (events (sources w r))
       else SharedTestSource_schedule r sub w = w)
   \<and> actions (SharedTestSource_schedule r sub (w\<lparr>subjects := S\<rparr>))
       = actions (SharedTestSource_schedule r sub w)"
proof -
  have sub: "actions (Source_call (SharedTestSourceRef r) k w) = actions w"
    "currentFrame (Source_call (SharedTestSourceRef r) k w) = currentFrame w"
    "subscriptions (sources (Source_call (SharedTestSourceRef r) k w) r)
       = subscriptions (sources w r) @ [next_ref w]"
    "infos (Source_call (SharedTestSourceRef r) k w) (next_ref w)
       = \<lparr>subscriptionStartFrame = currentFrame w,
          subscriptionEndFrame = (if active (disposables w (subscription k)) then Infinity
                                  else Frame (currentFrame w))\<rparr>"
    "subjects (Source_call (SharedTestSourceRef r) k w) r
       = (if active (disposables w (subscription k)) then subjects w r @ [k]
          else remove1 k (subjects w r @ [k]))"
    by (simp_all add: Source_call_def SharedTestSource_subscribe_def watchSubscriptionInfo_def
                      push_subscription_def Subject_subscribe_def Disposable_add_def
                      run_teardown_def Let_def)
  have sch: "length (actions (SharedTestSource_schedule r sub w))
              = length (actions w) + length (events (sources w r))
          \<and> callback ` set (actions (SharedTestSource_schedule r sub w))
              = callback ` set (actions w) \<union> CallSubject r ` set (events (sources w r))"
    if "sub_ok w sub"
    unfolding SharedTestSource_schedule_def by (rule fold_testSchedule_ok[OF that])
  have nsch: "SharedTestSource_schedule r sub w = w" if "\<not> sub_ok w sub"
    unfolding SharedTestSource_schedule_def by (rule fold_testSchedule_not_ok[OF that])
  have ind: "actions (SharedTestSource_schedule r sub (w\<lparr>subjects := S\<rparr>))
       = actions (SharedTestSource_schedule r sub w)"
    by (simp add: SharedTestSource_schedule_def fold_testSchedule_subjects_commute)
  show ?thesis using sub sch nsch ind by simp
qed

text \<open>
  C9, as stated, fails for a call of \<open>schedule\<close> with a disposed subscription: two
  declared events, no action enqueued.
\<close>

theorem schedule_with_disposed_subscription_counterexample:
  "events (sources (dispose 1 (snd (newDisposable (snd (SharedTestSource [P 1 0, E 5] TestSchedule))))) 0)
     = [P 1 0, E 5]
   \<and> actions (SharedTestSource_schedule 0 (Some 1)
        (dispose 1 (snd (newDisposable (snd (SharedTestSource [P 1 0, E 5] TestSchedule)))))) = []"
  by (simp add: SharedTestSource_schedule_def SharedTestSource_def newDisposable_def dispose_def
                testSchedule_def TestSchedule_def Let_def)

section \<open>The frames of watchSourceEvents\<close>



text \<open>The same on a schedule that reached frame 3 by a flush.\<close>

lemma watchSourceEvents_after_a_flush:
  "\<exists>w0 s w1 r w2 w3.
      flush 2 (testSchedule (Opaque 9) 3 None TestSchedule) = Some (Returned w0)
    \<and> currentFrame w0 = 3
    \<and> TestSource [P 1 0] w0 = (TestSourceRef s, w1)
    \<and> watchSourceEvents (TestSourceRef s)
          \<lparr>subscriptionStartFrame = 5, subscriptionEndFrame = Frame 10\<rparr> w1 = Some (r, w2)
    \<and> flush 4 w2 = Some (Returned w3)
    \<and> recorded w3 r = [\<lparr>event = Push 1, frame = 8\<rparr>]
    \<and> subscriptions_of w3 s = [\<lparr>subscriptionStartFrame = 8, subscriptionEndFrame = Frame 13\<rparr>]"
  by (simp add: run_defs flush.simps)

section \<open>The queue stays sorted\<close>

lemma queue_sorted_frame [simp]:
  "queue_sorted (w\<lparr>disposables := ds\<rparr>) = queue_sorted w"
  "queue_sorted (w\<lparr>infos := fs\<rparr>) = queue_sorted w"
  "queue_sorted (w\<lparr>sources := ss\<rparr>) = queue_sorted w"
  "queue_sorted (w\<lparr>subjects := js\<rparr>) = queue_sorted w"
  "queue_sorted (w\<lparr>recorded := rs\<rparr>) = queue_sorted w"
  "queue_sorted (w\<lparr>isFlushing := b\<rparr>) = queue_sorted w"
  "queue_sorted (w\<lparr>currentFrame := c\<rparr>) = queue_sorted w"
  "queue_sorted (w\<lparr>invoked := hs\<rparr>) = queue_sorted w"
  "queue_sorted (w\<lparr>next_ref := m\<rparr>) = queue_sorted w"
  by (simp_all add: queue_sorted_def)

lemma run_teardown_sorted: "queue_sorted w \<Longrightarrow> queue_sorted (run_teardown t w)"
  by (simp add: queue_sorted_def run_teardown_fields)

lemma fold_run_teardown_sorted: "queue_sorted w \<Longrightarrow> queue_sorted (fold run_teardown ts w)"
  by (induction ts arbitrary: w) (auto intro: run_teardown_sorted)

lemma dispose_sorted: "queue_sorted w \<Longrightarrow> queue_sorted (dispose d w)"
  by (simp add: dispose_def Let_def fold_run_teardown_sorted)

lemma Disposable_add_sorted: "queue_sorted w \<Longrightarrow> queue_sorted (Disposable_add d t w)"
  by (simp add: Disposable_add_def run_teardown_sorted)

lemma sorted_insert_by_frame:
  assumes "sorted (map executionFrame q)"
  shows "sorted (map executionFrame (insert_by_frame a q))"
  using assms
  by (auto simp: insert_by_frame_def sorted_append sorted_filter)

lemma testSchedule_queue_sorted: "queue_sorted w \<Longrightarrow> queue_sorted (testSchedule cb dl sub w)"
  unfolding queue_sorted_def
  by (frule testSchedule_sorted[of w cb dl sub])
     (auto simp: sorted_insert_by_frame split: option.splits)

lemma reset_sorted: "queue_sorted (reset w)"
  by (simp add: queue_sorted_def reset_def)

lemma Sink_call_sorted: "queue_sorted w \<Longrightarrow> queue_sorted (Sink_call k e w)"
  by (simp add: Sink_call_def split: sink_callback.splits)

lemma Subject_push_sorted: "queue_sorted w \<Longrightarrow> queue_sorted (Subject_push s e w)"
proof -
  have "queue_sorted w \<Longrightarrow> queue_sorted (fold (\<lambda>k. Sink_call k e) ks w)" for ks
    by (induction ks arbitrary: w) (auto intro: Sink_call_sorted)
  then show "queue_sorted w \<Longrightarrow> queue_sorted (Subject_push s e w)"
    by (simp add: Subject_push_def)
qed

lemma watchSubscriptionInfo_sorted:
  "queue_sorted w \<Longrightarrow> queue_sorted (snd (watchSubscriptionInfo sub w))"
  by (auto simp: watchSubscriptionInfo_def Let_def intro: Disposable_add_sorted
           split: option.splits)

lemma fold_testSchedule_sorted:
  "queue_sorted w \<Longrightarrow> queue_sorted (fold (\<lambda>e. testSchedule (g e) (frame e) sub) es w)"
  by (induction es arbitrary: w) (auto intro: testSchedule_queue_sorted)

lemma Source_call_sorted: "queue_sorted w \<Longrightarrow> queue_sorted (Source_call src k w)"
proof -
  assume c: "queue_sorted w"
  obtain j w1 where w1: "watchSubscriptionInfo (Some (subscription k)) w = (j, w1)"
    by (cases "watchSubscriptionInfo (Some (subscription k)) w")
  with watchSubscriptionInfo_sorted[OF c, of "Some (subscription k)"]
  have "queue_sorted w1" by simp
  then have p: "queue_sorted (push_subscription r j w1)" for r
    by (simp add: push_subscription_def)
  show ?thesis
    by (cases src)
       (simp_all add: Source_call_def TestSource_subscribe_def SharedTestSource_subscribe_def w1
                      Let_def fold_testSchedule_sorted p Subject_subscribe_def
                      Disposable_add_sorted)
qed

lemma flush_queue_sorted:
  "queue_sorted w \<Longrightarrow> flush_loop n w = Some r \<Longrightarrow> queue_sorted (world_of r)"
  "queue_sorted w \<Longrightarrow> run_callback n cb w = Some r' \<Longrightarrow> queue_sorted (world_of r')"
  "queue_sorted w \<Longrightarrow> flush n w = Some r'' \<Longrightarrow> queue_sorted (world_of r'')"
proof (induction n w and n cb w and n w arbitrary: r and r' and r''
       rule: flush_loop_run_callback_flush.induct)
  case (1 w)
  then show ?case by simp
next
  case (2 n w)
  show ?case
  proof (cases "actions w")
    case Nil
    with "2.prems" show ?thesis by auto
  next
    case (Cons a rest)
    let ?w1 = "w\<lparr>actions := rest, currentFrame := executionFrame a\<rparr>"
    let ?w1' = "?w1\<lparr>invoked := invoked ?w1 @ [a]\<rparr>"
    have c1: "queue_sorted ?w1" using "2.prems"(1) Cons by (simp add: queue_sorted_def)
    show ?thesis
    proof (cases "shouldCall a")
      case False
      with Cons "2.prems"(2) have "flush_loop n ?w1 = Some r" by (simp add: Let_def)
      from "2.IH"(3)[OF Cons refl False c1 this] show ?thesis .
    next
      case True
      have c1': "queue_sorted ?w1'" using c1 by simp
      from True Cons "2.prems"(2) obtain r1 where r1: "run_callback n (callback a) ?w1' = Some r1"
        by (auto simp: Let_def split: option.splits)
      from "2.IH"(1)[OF Cons refl True c1' r1] have cr1: "queue_sorted (world_of r1)" .
      show ?thesis
      proof (cases r1)
        case (Raised e w2)
        with True Cons "2.prems"(2) r1 have "r = Raised e (reset w2)" by (simp add: Let_def)
        then show ?thesis by (simp add: reset_sorted)
      next
        case (Returned w2)
        with True Cons "2.prems"(2) r1 have "flush_loop n w2 = Some r" by (simp add: Let_def)
        from "2.IH"(2)[OF Cons refl True r1 Returned _ this] cr1 Returned show ?thesis by simp
      qed
    qed
  qed
next
  case (13 n cb cbs w)
  from "13.prems"(2) obtain r1 where r1: "run_callback n cb w = Some r1"
    by (auto split: option.splits)
  from "13.IH"(1)[OF "13.prems"(1) r1] have cr1: "queue_sorted (world_of r1)" .
  show ?case
  proof (cases r1)
    case (Raised e w2)
    with "13.prems"(2) r1 have "r' = Raised e w2" by simp
    with cr1 Raised show ?thesis by simp
  next
    case (Returned w2)
    with "13.prems"(2) r1 have "run_callback n (Seq cbs) w2 = Some r'" by simp
    from "13.IH"(2)[OF r1 Returned _ this] cr1 Returned show ?thesis by simp
  qed
next
  case (14 n w)
  show ?case
  proof (cases "isFlushing w")
    case True
    with "14.prems" show ?thesis by (auto simp: flush.simps)
  next
    case False
    with "14.prems"(2) obtain r1 where r1: "flush_loop n (w\<lparr>isFlushing := True\<rparr>) = Some r1"
      by (auto simp: flush.simps split: option.splits)
    have "queue_sorted (w\<lparr>isFlushing := True\<rparr>)" using "14.prems"(1) by simp
    from "14.IH"[OF False this r1] have "queue_sorted (world_of r1)" .
    with False r1 "14.prems"(2) show ?thesis
      by (cases r1) (auto simp: flush.simps)
  qed
qed (auto simp: reset_sorted dispose_sorted Source_call_sorted Sink_call_sorted
          Subject_push_sorted testSchedule_queue_sorted)

text \<open>
  On a sorted queue the schedule inserts by the rule of the specification: after every
  queued action with a smaller or equal frame.
\<close>

lemma testSchedule_inserts_by_frame:
  assumes "queue_sorted w" and "sub_ok w sub"
  shows "actions (testSchedule cb delayFrames sub w)
       = insert_by_frame \<lparr>aid = next_ref w, callback = cb,
                           executionFrame = currentFrame w + delayFrames, shouldCall = True\<rparr>
           (actions w)"
  using assms testSchedule_sorted[of w cb delayFrames sub]
  by (auto simp: queue_sorted_def sub_ok_def split: option.splits)

end
